theory Spec2Isabelle
  imports Main
begin

section \<open>The CSS selector builder of objects-tasks.js\<close>

subsection \<open>Data model\<close>

text \<open>
  The six fragment categories. The source names them by the string literals
  \<^verbatim>\<open>'element'\<close>, \<^verbatim>\<open>'id'\<close>, \<^verbatim>\<open>'class'\<close>, \<^verbatim>\<open>'attr'\<close>, \<^verbatim>\<open>'pseudoClass'\<close> and
  \<^verbatim>\<open>'pseudoElement'\<close>, which are the only arguments \<^verbatim>\<open>checkOrder\<close> ever receives.
\<close>

datatype part = PElement | PId | PClass | PAttr | PPseudoClass | PPseudoElement

text \<open>
  Both errors of the source are plain \<^verbatim>\<open>Error\<close> objects told apart by their message:
  the one thrown by \<^verbatim>\<open>ensureSingle\<close> and the one thrown by \<^verbatim>\<open>checkOrder\<close>.
\<close>

datatype error = DuplicateSelectorPartError | InvalidSelectorOrderError

text \<open>
  The fields of class \<^verbatim>\<open>Selector\<close>, as its constructor sets them. A scalar field is
  \<^verbatim>\<open>null\<close> (here \<open>None\<close>) until a string is stored in it.
\<close>

record Selector =
  elementName :: "string option"
  idName :: "string option"
  classes :: "string list"
  attributes :: "string list"
  pseudoClasses :: "string list"
  pseudoElementName :: "string option"
  order :: "part list"

definition newSelector :: Selector where
  "newSelector =
     \<lparr>elementName = None, idName = None, classes = [], attributes = [],
      pseudoClasses = [], pseudoElementName = None, order = []\<rparr>"

subsection \<open>Validation\<close>

fun orderMap :: "part \<Rightarrow> nat" where
  "orderMap PElement = 1"
| "orderMap PId = 2"
| "orderMap PClass = 3"
| "orderMap PAttr = 4"
| "orderMap PPseudoClass = 5"
| "orderMap PPseudoElement = 6"

text \<open>
  \<^verbatim>\<open>checkOrder(part)\<close> reads the last entry of \<^verbatim>\<open>this.order\<close> (undefined, hence falsy,
  when the array is empty), throws when its rank exceeds the rank of \<open>part\<close>, and
  otherwise pushes \<open>part\<close> onto \<^verbatim>\<open>this.order\<close>: the receiver itself. The model returns
  the error, or the receiver as the push leaves it.
\<close>

definition Selector_checkOrder :: "part \<Rightarrow> Selector \<Rightarrow> error + Selector" where
  "Selector_checkOrder p this =
     (if order this \<noteq> [] \<and> orderMap (last (order this)) > orderMap p
      then Inl InvalidSelectorOrderError
      else Inr (this\<lparr>order := order this @ [p]\<rparr>))"

definition Selector_ensureSingle :: "string option \<Rightarrow> error + unit" where
  "Selector_ensureSingle v =
     (if v \<noteq> None then Inl DuplicateSelectorPartError else Inr ())"

definition Selector_clone :: "Selector \<Rightarrow> Selector" where
  "Selector_clone this =
     \<lparr>elementName = elementName this, idName = idName this, classes = classes this,
      attributes = attributes this, pseudoClasses = pseudoClasses this,
      pseudoElementName = pseudoElementName this, order = order this\<rparr>"

subsection \<open>Fragment-adding methods\<close>

text \<open>
  A method call has two observable outcomes: what it returns (the copy) or throws, and
  the state of the receiver afterwards. Each method is therefore a function from the
  argument and the receiver to the pair of both. The copy owns fresh arrays, so the two
  components share nothing.
\<close>

type_synonym outcome = "(error + Selector) \<times> Selector"

definition Selector_element :: "string \<Rightarrow> Selector \<Rightarrow> outcome" where
  "Selector_element v this =
     (case Selector_ensureSingle (elementName this) of
        Inl e \<Rightarrow> (Inl e, this)
      | Inr _ \<Rightarrow>
          (case Selector_checkOrder PElement this of
             Inl e \<Rightarrow> (Inl e, this)
           | Inr this' \<Rightarrow> (Inr ((Selector_clone this')\<lparr>elementName := Some v\<rparr>), this')))"

definition Selector_id :: "string \<Rightarrow> Selector \<Rightarrow> outcome" where
  "Selector_id v this =
     (case Selector_ensureSingle (idName this) of
        Inl e \<Rightarrow> (Inl e, this)
      | Inr _ \<Rightarrow>
          (case Selector_checkOrder PId this of
             Inl e \<Rightarrow> (Inl e, this)
           | Inr this' \<Rightarrow> (Inr ((Selector_clone this')\<lparr>idName := Some v\<rparr>), this')))"

definition Selector_class :: "string \<Rightarrow> Selector \<Rightarrow> outcome" where
  "Selector_class v this =
     (case Selector_checkOrder PClass this of
        Inl e \<Rightarrow> (Inl e, this)
      | Inr this' \<Rightarrow>
          (Inr ((Selector_clone this')\<lparr>classes := classes (Selector_clone this') @ [v]\<rparr>),
           this'))"

definition Selector_attr :: "string \<Rightarrow> Selector \<Rightarrow> outcome" where
  "Selector_attr v this =
     (case Selector_checkOrder PAttr this of
        Inl e \<Rightarrow> (Inl e, this)
      | Inr this' \<Rightarrow>
          (Inr ((Selector_clone this')
                  \<lparr>attributes := attributes (Selector_clone this') @ [v]\<rparr>),
           this'))"

definition Selector_pseudoClass :: "string \<Rightarrow> Selector \<Rightarrow> outcome" where
  "Selector_pseudoClass v this =
     (case Selector_checkOrder PPseudoClass this of
        Inl e \<Rightarrow> (Inl e, this)
      | Inr this' \<Rightarrow>
          (Inr ((Selector_clone this')
                  \<lparr>pseudoClasses := pseudoClasses (Selector_clone this') @ [v]\<rparr>),
           this'))"

definition Selector_pseudoElement :: "string \<Rightarrow> Selector \<Rightarrow> outcome" where
  "Selector_pseudoElement v this =
     (case Selector_ensureSingle (pseudoElementName this) of
        Inl e \<Rightarrow> (Inl e, this)
      | Inr _ \<Rightarrow>
          (case Selector_checkOrder PPseudoElement this of
             Inl e \<Rightarrow> (Inl e, this)
           | Inr this' \<Rightarrow>
               (Inr ((Selector_clone this')\<lparr>pseudoElementName := Some v\<rparr>), this')))"

subsection \<open>Serialisation\<close>

text \<open>
  \<^verbatim>\<open>x || ''\<close> and \<^verbatim>\<open>x ? ... : ''\<close> test the truthiness of a field that holds \<^verbatim>\<open>null\<close> or
  a string: \<^verbatim>\<open>null\<close> and the empty string are falsy, every other string is truthy.
\<close>

fun truthy :: "string option \<Rightarrow> bool" where
  "truthy None = False"
| "truthy (Some v) = (v \<noteq> [])"

definition mapClass :: "string \<Rightarrow> string" where
  "mapClass c = ''.'' @ c"

definition mapAttr :: "string \<Rightarrow> string" where
  "mapAttr a = ''['' @ a @ '']''"

definition mapPseudoClass :: "string \<Rightarrow> string" where
  "mapPseudoClass pc = '':'' @ pc"

definition Selector_stringify :: "Selector \<Rightarrow> string" where
  "Selector_stringify this =
     (if truthy (elementName this) then the (elementName this) else '''') @
     (if truthy (idName this) then ''#'' @ the (idName this) else '''') @
     concat (map mapClass (classes this)) @
     concat (map mapAttr (attributes this)) @
     concat (map mapPseudoClass (pseudoClasses this)) @
     (if truthy (pseudoElementName this) then ''::'' @ the (pseudoElementName this)
      else '''')"

subsection \<open>Combined selectors and the builder\<close>

text \<open>
  \<^verbatim>\<open>CombinedSelector\<close> stores two values that answer \<^verbatim>\<open>stringify()\<close>: selectors or
  combined selectors. \<open>stringify\<close> is the method dispatch on such a value.
\<close>

datatype SelectorLike =
    Simple Selector
  | CombinedSelector SelectorLike string SelectorLike

fun stringify :: "SelectorLike \<Rightarrow> string" where
  "stringify (Simple s) = Selector_stringify s"
| "stringify (CombinedSelector selector1 combinator selector2) =
     stringify selector1 @ '' '' @ combinator @ '' '' @ stringify selector2"

definition combine :: "SelectorLike \<Rightarrow> string \<Rightarrow> SelectorLike \<Rightarrow> SelectorLike" where
  "combine selector1 combinator selector2 = CombinedSelector selector1 combinator selector2"

text \<open>
  The six constructors of \<^verbatim>\<open>cssSelectorBuilder\<close> call the method of the same name on a
  fresh selector and return what it returns; the fresh receiver is dropped.
\<close>

definition builder_element :: "string \<Rightarrow> error + Selector" where
  "builder_element v = fst (Selector_element v newSelector)"

definition builder_id :: "string \<Rightarrow> error + Selector" where
  "builder_id v = fst (Selector_id v newSelector)"

definition builder_class :: "string \<Rightarrow> error + Selector" where
  "builder_class v = fst (Selector_class v newSelector)"

definition builder_attr :: "string \<Rightarrow> error + Selector" where
  "builder_attr v = fst (Selector_attr v newSelector)"

definition builder_pseudoClass :: "string \<Rightarrow> error + Selector" where
  "builder_pseudoClass v = fst (Selector_pseudoClass v newSelector)"

definition builder_pseudoElement :: "string \<Rightarrow> error + Selector" where
  "builder_pseudoElement v = fst (Selector_pseudoElement v newSelector)"

subsection \<open>Call chains\<close>

text \<open>
  A fragment-adding call, as data: the method and its argument. \<open>invoke\<close> performs it
  on a receiver; \<open>chain\<close> is the fluent chain \<^verbatim>\<open>s.f1(v1).f2(v2)...\<close>, where each call's
  receiver is the value the previous call returned and a throw ends the chain.
  \<open>lineage\<close> is such a chain started on the fresh selector of a builder constructor.
\<close>

datatype call =
    ElementCall string | IdCall string | ClassCall string | AttrCall string
  | PseudoClassCall string | PseudoElementCall string

fun category :: "call \<Rightarrow> part" where
  "category (ElementCall v) = PElement"
| "category (IdCall v) = PId"
| "category (ClassCall v) = PClass"
| "category (AttrCall v) = PAttr"
| "category (PseudoClassCall v) = PPseudoClass"
| "category (PseudoElementCall v) = PPseudoElement"

fun invoke :: "call \<Rightarrow> Selector \<Rightarrow> outcome" where
  "invoke (ElementCall v) s = Selector_element v s"
| "invoke (IdCall v) s = Selector_id v s"
| "invoke (ClassCall v) s = Selector_class v s"
| "invoke (AttrCall v) s = Selector_attr v s"
| "invoke (PseudoClassCall v) s = Selector_pseudoClass v s"
| "invoke (PseudoElementCall v) s = Selector_pseudoElement v s"

fun chain :: "call list \<Rightarrow> Selector \<Rightarrow> error + Selector" where
  "chain [] s = Inr s"
| "chain (c # cs) s =
     (case fst (invoke c s) of Inl e \<Rightarrow> Inl e | Inr s' \<Rightarrow> chain cs s')"

definition lineage :: "call list \<Rightarrow> error + Selector" where
  "lineage cs = chain cs newSelector"

subsection \<open>Serialisation as the specification words it\<close>

text \<open>
  The arguments of the calls of one category, in call order, and the string the
  specification describes for a call sequence: element name bare, id after \<open>#\<close>, each
  class after \<open>.\<close>, each attribute in brackets, each pseudo-class after \<open>:\<close>, the
  pseudo-element after \<open>::\<close>. \<open>serialize_nonempty\<close> differs in one respect: an id or
  pseudo-element that is the empty string contributes nothing.
\<close>

fun arg :: "call \<Rightarrow> string" where
  "arg (ElementCall v) = v"
| "arg (IdCall v) = v"
| "arg (ClassCall v) = v"
| "arg (AttrCall v) = v"
| "arg (PseudoClassCall v) = v"
| "arg (PseudoElementCall v) = v"

definition argsOf :: "part \<Rightarrow> call list \<Rightarrow> string list" where
  "argsOf p cs = map arg (filter (\<lambda>c. category c = p) cs)"

definition serialize_spec :: "call list \<Rightarrow> string" where
  "serialize_spec cs =
     concat (argsOf PElement cs) @
     concat (map (\<lambda>v. ''#'' @ v) (argsOf PId cs)) @
     concat (map (\<lambda>v. ''.'' @ v) (argsOf PClass cs)) @
     concat (map (\<lambda>v. ''['' @ v @ '']'') (argsOf PAttr cs)) @
     concat (map (\<lambda>v. '':'' @ v) (argsOf PPseudoClass cs)) @
     concat (map (\<lambda>v. ''::'' @ v) (argsOf PPseudoElement cs))"

definition serialize_nonempty :: "call list \<Rightarrow> string" where
  "serialize_nonempty cs =
     concat (argsOf PElement cs) @
     concat (map (\<lambda>v. ''#'' @ v) (filter (\<lambda>v. v \<noteq> []) (argsOf PId cs))) @
     concat (map (\<lambda>v. ''.'' @ v) (argsOf PClass cs)) @
     concat (map (\<lambda>v. ''['' @ v @ '']'') (argsOf PAttr cs)) @
     concat (map (\<lambda>v. '':'' @ v) (argsOf PPseudoClass cs)) @
     concat (map (\<lambda>v. ''::'' @ v) (filter (\<lambda>v. v \<noteq> []) (argsOf PPseudoElement cs)))"

subsection \<open>Auxiliary notions for the proofs\<close>

text \<open>
  What the copy returned by a successful call holds, the scalar field a category is
  stored in (none for the three repeatable categories), and an optional value as a list.
\<close>

definition added :: "call \<Rightarrow> Selector \<Rightarrow> Selector" where
  "added c s =
     (case c of
        ElementCall v \<Rightarrow> s\<lparr>elementName := Some v, order := order s @ [PElement]\<rparr>
      | IdCall v \<Rightarrow> s\<lparr>idName := Some v, order := order s @ [PId]\<rparr>
      | ClassCall v \<Rightarrow> s\<lparr>classes := classes s @ [v], order := order s @ [PClass]\<rparr>
      | AttrCall v \<Rightarrow> s\<lparr>attributes := attributes s @ [v], order := order s @ [PAttr]\<rparr>
      | PseudoClassCall v \<Rightarrow>
          s\<lparr>pseudoClasses := pseudoClasses s @ [v], order := order s @ [PPseudoClass]\<rparr>
      | PseudoElementCall v \<Rightarrow>
          s\<lparr>pseudoElementName := Some v, order := order s @ [PPseudoElement]\<rparr>)"

definition slot :: "part \<Rightarrow> Selector \<Rightarrow> string option" where
  "slot p s =
     (case p of
        PElement \<Rightarrow> elementName s
      | PId \<Rightarrow> idName s
      | PPseudoElement \<Rightarrow> pseudoElementName s
      | _ \<Rightarrow> None)"

fun olist :: "'a option \<Rightarrow> 'a list" where
  "olist None = []"
| "olist (Some v) = [v]"

section \<open>Plain objects\<close>

subsection \<open>Own properties and their enumeration\<close>

text \<open>
  A plain JavaScript object, as the functions below see it: its own enumerable
  string-keyed properties in the order they were created, no key twice.
\<close>

type_synonym 'v object = "(string \<times> 'v) list"

text \<open>
  \<^verbatim>\<open>Object.entries\<close> does not enumerate in creation order: the keys that are array
  indices (the canonical decimal strings of the integers from 0 to \<open>2\<^sup>3\<^sup>2 - 2\<close>) come
  first, in ascending numeric order, then the other keys in creation order
  (ECMAScript, OrdinaryOwnPropertyKeys).
\<close>

definition isDigit :: "char \<Rightarrow> bool" where
  "isDigit c = (c \<in> set ''0123456789'')"

definition digitValue :: "char \<Rightarrow> int" where
  "digitValue c = of_char c - 48"

definition toNumber :: "string \<Rightarrow> int" where
  "toNumber k = foldl (\<lambda>n c. 10 * n + digitValue c) 0 k"

definition isArrayIndex :: "string \<Rightarrow> bool" where
  "isArrayIndex k =
     (k \<noteq> [] \<and> list_all isDigit k \<and> (k = ''0'' \<or> hd k \<noteq> CHR ''0'') \<and>
      toNumber k < 4294967295)"

definition Object_entries :: "'v object \<Rightarrow> (string \<times> 'v) list" where
  "Object_entries obj =
     sort_key (\<lambda>e. toNumber (fst e)) (filter (\<lambda>e. isArrayIndex (fst e)) obj) @
     filter (\<lambda>e. \<not> isArrayIndex (fst e)) obj"

subsection \<open>compareObjects\<close>

text \<open>
  The values of the objects compared are primitives (the objects hold no nested objects).
  \<open>'n\<close> stands for the number values other than \<^verbatim>\<open>NaN\<close>, each taken once (\<^verbatim>\<open>+0\<close> and
  \<^verbatim>\<open>-0\<close>, which \<^verbatim>\<open>===\<close> does not tell apart, are one value); a symbol is known by a
  number of its own. \<^verbatim>\<open>x !== y\<close> on primitives holds when the two differ, and also when
  either is \<^verbatim>\<open>NaN\<close>: \<^verbatim>\<open>NaN !== NaN\<close> is true.
\<close>

datatype 'n primitive =
    JsUndefined | JsNull | JsBoolean bool | JsNumber 'n | JsNaN | JsString string
  | JsBigInt int | JsSymbol nat

fun strictNotEqual :: "'n primitive \<Rightarrow> 'n primitive \<Rightarrow> bool" where
  "strictNotEqual JsNaN y = True"
| "strictNotEqual x JsNaN = True"
| "strictNotEqual x y = (x \<noteq> y)"

text \<open>
  The loop of \<^verbatim>\<open>compareObjects\<close> from index \<open>i\<close> on; it runs after the two lengths were
  found equal, so both reads are in range. The keys are strings, on which \<^verbatim>\<open>!==\<close> is
  inequality.
\<close>

function compare_from ::
  "(string \<times> 'n primitive) list \<Rightarrow> (string \<times> 'n primitive) list \<Rightarrow> nat \<Rightarrow> bool" where
  "compare_from entries1 entries2 i =
     (if i < length entries1 then
        (if fst (entries1 ! i) \<noteq> fst (entries2 ! i) \<or>
            strictNotEqual (snd (entries1 ! i)) (snd (entries2 ! i))
         then False
         else compare_from entries1 entries2 (i + 1))
      else True)"
  by pat_completeness auto
termination
  by (relation "measure (\<lambda>(entries1, entries2, i). length entries1 - i)") auto

declare compare_from.simps [simp del]

definition compareObjects :: "'n primitive object \<Rightarrow> 'n primitive object \<Rightarrow> bool" where
  "compareObjects obj1 obj2 =
     (let entries1 = Object_entries obj1; entries2 = Object_entries obj2
      in if length entries1 \<noteq> length entries2 then False
         else compare_from entries1 entries2 0)"

text \<open>
  The properties of an object whose keys are not array indices, in creation order.
\<close>

definition otherProps :: "'v object \<Rightarrow> (string \<times> 'v) list" where
  "otherProps obj = filter (\<lambda>e. \<not> isArrayIndex (fst e)) obj"

subsection \<open>mergeObjects\<close>

text \<open>
  \<^verbatim>\<open>obj[key] = value\<close> on own properties: an existing property keeps its place, a new one
  is created last.
\<close>

definition setProp :: "'v object \<Rightarrow> string \<Rightarrow> 'v \<Rightarrow> 'v object" where
  "setProp obj key value =
     (if key \<in> fst ` set obj
      then map (\<lambda>e. if fst e = key then (key, value) else e) obj
      else obj @ [(key, value)])"

text \<open>
  The input objects hold numbers, of a type \<open>'n\<close>. The result starts as \<^verbatim>\<open>{}\<close>, an object
  that inherits from \<^verbatim>\<open>Object.prototype\<close>, and the code reads it with \<^verbatim>\<open>result[key]\<close>:
  the own property when there is one, else the inherited one, else \<^verbatim>\<open>undefined\<close> (here
  \<open>None\<close>). The inherited properties are functions, and \<^verbatim>\<open>__proto__\<close> an accessor that
  yields an object. A value of the result is thus a number or not a number (a function,
  an object, or a string that \<^verbatim>\<open>+=\<close> made of one); of the latter the model keeps only
  that much.
\<close>

datatype 'n jsvalue = Number 'n | NotNumber

definition Object_prototype :: "string list" where
  "Object_prototype =
     [''constructor'', ''__defineGetter__'', ''__defineSetter__'', ''hasOwnProperty'',
      ''__lookupGetter__'', ''__lookupSetter__'', ''isPrototypeOf'',
      ''propertyIsEnumerable'', ''toString'', ''valueOf'', ''__proto__'',
      ''toLocaleString'']"

definition getProp :: "'n jsvalue object \<Rightarrow> string \<Rightarrow> 'n jsvalue option" where
  "getProp obj key =
     (case map_of obj key of
        Some v \<Rightarrow> Some v
      | None \<Rightarrow> if key \<in> set Object_prototype then Some NotNumber else None)"

text \<open>
  \<^verbatim>\<open>+\<close> on two numbers is the addition of the number type, which for JavaScript is
  the rounding addition of doubles; it is the parameter \<open>add\<close> of the model. With a
  function, an object or a string on either side \<^verbatim>\<open>+\<close> concatenates strings.
\<close>

fun jsadd :: "('n \<Rightarrow> 'n \<Rightarrow> 'n) \<Rightarrow> 'n jsvalue \<Rightarrow> 'n jsvalue \<Rightarrow> 'n jsvalue" where
  "jsadd add (Number a) (Number b) = Number (add a b)"
| "jsadd add x y = NotNumber"

text \<open>
  \<^verbatim>\<open>result[key] = value\<close>. For \<^verbatim>\<open>__proto__\<close>, not an own property, the assignment calls
  the inherited setter; what the code assigns there is a string (the key is never
  \<^verbatim>\<open>undefined\<close> on the result), which the setter ignores.
\<close>

definition putProp :: "'n jsvalue object \<Rightarrow> string \<Rightarrow> 'n jsvalue \<Rightarrow> 'n jsvalue object" where
  "putProp obj key value =
     (if key = ''__proto__'' \<and> key \<notin> fst ` set obj then obj else setProp obj key value)"

fun mergeEntries ::
  "('n \<Rightarrow> 'n \<Rightarrow> 'n) \<Rightarrow> 'n jsvalue object \<Rightarrow> (string \<times> 'n) list \<Rightarrow> 'n jsvalue object" where
  "mergeEntries add result [] = result"
| "mergeEntries add result ((key, value) # elements) =
     mergeEntries add
       (case getProp result key of
          None \<Rightarrow> putProp result key (Number value)
        | Some old \<Rightarrow> putProp result key (jsadd add old (Number value)))
       elements"

fun mergeAll ::
  "('n \<Rightarrow> 'n \<Rightarrow> 'n) \<Rightarrow> 'n jsvalue object \<Rightarrow> 'n object list \<Rightarrow> 'n jsvalue object" where
  "mergeAll add result [] = result"
| "mergeAll add result (object # objects) =
     mergeAll add (mergeEntries add result (Object_entries object)) objects"

definition mergeObjects :: "('n \<Rightarrow> 'n \<Rightarrow> 'n) \<Rightarrow> 'n object list \<Rightarrow> 'n jsvalue object" where
  "mergeObjects add objects = mergeAll add [] objects"

text \<open>
  The values a key has in the inputs that hold it, in input order, and their sum as the
  code forms it: from the first value on, each further value added on the right.
\<close>

definition valuesOf :: "string \<Rightarrow> 'n object list \<Rightarrow> 'n list" where
  "valuesOf k objects =
     map (\<lambda>obj. the (map_of obj k)) (filter (\<lambda>obj. k \<in> fst ` set obj) objects)"

definition total :: "('n \<Rightarrow> 'n \<Rightarrow> 'n) \<Rightarrow> string \<Rightarrow> 'n object list \<Rightarrow> 'n jsvalue option" where
  "total add k objects =
     (case valuesOf k objects of
        [] \<Rightarrow> None
      | v # vs \<Rightarrow> Some (Number (foldl add v vs)))"

subsection \<open>Auxiliary notions for the proofs\<close>

text \<open>
  Adding an optional value to an optional value, and the objects whose keys are distinct
  and do not name a member of \<^verbatim>\<open>Object.prototype\<close>.
\<close>

fun oplus ::
  "('n \<Rightarrow> 'n \<Rightarrow> 'n) \<Rightarrow> 'n jsvalue option \<Rightarrow> 'n jsvalue option \<Rightarrow> 'n jsvalue option" where
  "oplus add None y = y"
| "oplus add (Some a) None = Some a"
| "oplus add (Some a) (Some b) = Some (jsadd add a b)"

definition plainKeys :: "'v object \<Rightarrow> bool" where
  "plainKeys obj = (distinct (map fst obj) \<and> fst ` set obj \<inter> set Object_prototype = {})"

section \<open>The ticket queue\<close>

text \<open>
  \<^verbatim>\<open>sellTickets(queue)\<close> keeps the numbers of 25 and 50 bills in \<^verbatim>\<open>cashbox\<close> and walks
  the queue; a \<^verbatim>\<open>return false\<close> inside the loop ends it. The three tests on \<^verbatim>\<open>key\<close> exclude
  one another, and a bill that is none of 25, 50, 100 changes nothing. Each decrement
  stands behind the test that makes it exact on natural numbers.
\<close>

fun sellTickets_loop :: "nat \<Rightarrow> nat \<Rightarrow> int list \<Rightarrow> bool" where
  "sellTickets_loop c25 c50 [] = True"
| "sellTickets_loop c25 c50 (key # queue) =
     (if key = 25 then sellTickets_loop (c25 + 1) c50 queue
      else if key = 50 then
        (if c25 > 0 then sellTickets_loop (c25 - 1) (c50 + 1) queue else False)
      else if key = 100 then
        (if c50 > 0 \<and> c25 > 0 then sellTickets_loop (c25 - 1) (c50 - 1) queue
         else if c25 > 2 then sellTickets_loop (c25 - 3) c50 queue
         else False)
      else sellTickets_loop c25 c50 queue)"

definition sellTickets :: "int list \<Rightarrow> bool" where
  "sellTickets queue = sellTickets_loop 0 0 queue"

text \<open>
  Giving change, as the task words it: the seller owns the bills collected so far (the
  numbers of 25, 50 and 100 bills), takes the customer's bill and hands back some of
  the bills then owned, worth the bill minus the price of 25. \<open>serve\<close> checks a plan:
  for every customer the bills handed back.
\<close>

type_synonym till = "nat \<times> nat \<times> nat"

fun collect :: "int \<Rightarrow> till \<Rightarrow> till" where
  "collect bill (a, b, c) =
     (if bill = 25 then (a + 1, b, c)
      else if bill = 50 then (a, b + 1, c)
      else if bill = 100 then (a, b, c + 1)
      else (a, b, c))"

fun give :: "till \<Rightarrow> till \<Rightarrow> till option" where
  "give (i, j, k) (a, b, c) =
     (if i \<le> a \<and> j \<le> b \<and> k \<le> c then Some (a - i, b - j, c - k) else None)"

fun serve :: "till \<Rightarrow> (int \<times> till) list \<Rightarrow> bool" where
  "serve t [] = True"
| "serve t ((bill, (i, j, k)) # rest) =
     (int (25 * i + 50 * j + 100 * k) = bill - 25 \<and>
      (case give (i, j, k) (collect bill t) of None \<Rightarrow> False | Some t' \<Rightarrow> serve t' rest))"

section \<open>Properties of the selector builder\<close>

lemmas method_defs =
  Selector_element_def Selector_id_def Selector_class_def Selector_attr_def
  Selector_pseudoClass_def Selector_pseudoElement_def

lemma clone_ident: "Selector_clone s = s"
  by (simp add: Selector_clone_def)

text \<open>
  C5. The string of a combined selector is the string of its left child, one space, the
  combinator as given, one space, the string of its right child, whatever the
  combinator is; with the space as combinator the children end up three spaces apart,
  so each child has two spaces next to it.
\<close>

theorem combine_stringify:
  "stringify (combine a c b) = stringify a @ '' '' @ c @ '' '' @ stringify b
   \<and> stringify (combine a '' '' b) = stringify a @ ''   '' @ stringify b
   \<and> (\<exists>r. stringify (combine a '' '' b) = stringify a @ ''  '' @ r)
   \<and> (\<exists>l. stringify (combine a '' '' b) = l @ ''  '' @ stringify b)"
proof -
  have "stringify (combine a '' '' b) = stringify a @ ''  '' @ ('' '' @ stringify b)"
    by (simp add: combine_def)
  moreover
  have "stringify (combine a '' '' b) = (stringify a @ '' '') @ ''  '' @ stringify b"
    by (simp add: combine_def)
  ultimately show ?thesis by (simp add: combine_def)
qed

subsection \<open>One call\<close>

lemmas check_defs = Selector_checkOrder_def Selector_ensureSingle_def

lemma invoke_Inr:
  "fst (invoke c s) = Inr r \<Longrightarrow>
     r = added c s \<and> slot (category c) s = None
     \<and> snd (invoke c s) = s\<lparr>order := order s @ [category c]\<rparr>
     \<and> (order s = [] \<or> orderMap (last (order s)) \<le> orderMap (category c))"
  by (cases c)
     (auto simp: method_defs check_defs clone_ident added_def slot_def
        split: sum.splits if_splits)

lemma invoke_result:
  "fst (invoke c s) =
     (if slot (category c) s \<noteq> None then Inl DuplicateSelectorPartError
      else if order s \<noteq> [] \<and> orderMap (category c) < orderMap (last (order s))
      then Inl InvalidSelectorOrderError
      else Inr (added c s))"
  by (cases c)
     (auto simp: method_defs check_defs clone_ident added_def slot_def
        split: sum.splits if_splits)

text \<open>
  C6. A call that fails, with either error, returns no selector and leaves the receiver
  exactly as it was: all six fragment fields and the order sequence.
\<close>

theorem failed_call_atomic:
  "fst (invoke c s) = Inl e \<Longrightarrow> snd (invoke c s) = s"
  by (cases c) (auto simp: method_defs split: sum.splits)

theorem failed_call_atomic_witness:
  "fst (invoke (ElementCall ''div'')
          (newSelector\<lparr>idName := Some ''x'', order := [PId]\<rparr>))
     = Inl InvalidSelectorOrderError
   \<and> snd (invoke (ElementCall ''div'')
          (newSelector\<lparr>idName := Some ''x'', order := [PId]\<rparr>))
     = newSelector\<lparr>idName := Some ''x'', order := [PId]\<rparr>"
proof -
  have f: "fst (invoke (ElementCall ''div'')
                  (newSelector\<lparr>idName := Some ''x'', order := [PId]\<rparr>))
             = Inl InvalidSelectorOrderError"
    by (simp add: Selector_element_def check_defs newSelector_def)
  from f failed_call_atomic [OF f] show ?thesis by simp
qed

text \<open>
  C7. Extending a selector does not change what the receiver serialises to: after a
  successful call the receiver's \<open>stringify\<close> returns the string it returned before.
\<close>

theorem receiver_stringify_unchanged:
  "fst (invoke c s) = Inr r \<Longrightarrow>
     Selector_stringify (snd (invoke c s)) = Selector_stringify s"
  by (cases c)
     (auto simp: method_defs Selector_stringify_def Selector_checkOrder_def
        split: sum.splits if_splits)

theorem receiver_stringify_unchanged_witness:
  "fst (invoke (ClassCall ''a'') (newSelector\<lparr>elementName := Some ''div'', order := [PElement]\<rparr>))
     = Inr (newSelector\<lparr>elementName := Some ''div'', classes := [''a''],
                        order := [PElement, PClass]\<rparr>)
   \<and> Selector_stringify
        (snd (invoke (ClassCall ''a'')
                (newSelector\<lparr>elementName := Some ''div'', order := [PElement]\<rparr>)))
     = ''div''"
proof -
  have f: "fst (invoke (ClassCall ''a'')
                  (newSelector\<lparr>elementName := Some ''div'', order := [PElement]\<rparr>))
             = Inr (newSelector\<lparr>elementName := Some ''div'', classes := [''a''],
                                order := [PElement, PClass]\<rparr>)"
    by (simp add: Selector_class_def check_defs clone_ident newSelector_def)
  have "Selector_stringify (newSelector\<lparr>elementName := Some ''div'', order := [PElement]\<rparr>)
          = ''div''"
    by (simp add: Selector_stringify_def newSelector_def)
  with f receiver_stringify_unchanged [OF f] show ?thesis by simp
qed

text \<open>
  C1. The receiver does not stay unchanged: \<open>checkOrder\<close> pushes the category onto the
  receiver's own order sequence before the copy is made. On the selector that
  \<open>element('div')\<close> returns, \<open>id('main')\<close> and \<open>class('a')\<close> each succeed; but once
  \<open>class('a')\<close> has been called on it the receiver's order sequence ends in the class
  category, and \<open>id('main')\<close> on the same receiver then throws the ordering error.
\<close>

theorem fan_out_interference:
  "builder_element ''div'' = Inr (newSelector\<lparr>elementName := Some ''div'', order := [PElement]\<rparr>)
   \<and> fst (Selector_id ''main'' (newSelector\<lparr>elementName := Some ''div'', order := [PElement]\<rparr>))
       = Inr (newSelector\<lparr>elementName := Some ''div'', idName := Some ''main'',
                          order := [PElement, PId]\<rparr>)
   \<and> fst (Selector_class ''a'' (newSelector\<lparr>elementName := Some ''div'', order := [PElement]\<rparr>))
       = Inr (newSelector\<lparr>elementName := Some ''div'', classes := [''a''],
                          order := [PElement, PClass]\<rparr>)
   \<and> snd (Selector_class ''a'' (newSelector\<lparr>elementName := Some ''div'', order := [PElement]\<rparr>))
       = newSelector\<lparr>elementName := Some ''div'', order := [PElement, PClass]\<rparr>
   \<and> fst (Selector_id ''main''
            (snd (Selector_class ''a''
                    (newSelector\<lparr>elementName := Some ''div'', order := [PElement]\<rparr>))))
       = Inl InvalidSelectorOrderError"
  by (simp add: builder_element_def method_defs check_defs clone_ident newSelector_def)

subsection \<open>Chains of calls\<close>

lemma chain_Cons_Inr:
  assumes "chain (c # cs) s = Inr r"
  obtains s' where "fst (invoke c s) = Inr s'" and "chain cs s' = Inr r"
  using assms by (auto split: sum.splits)

lemma chain_order: "chain cs s = Inr r \<Longrightarrow> order r = order s @ map category cs"
proof (induction cs arbitrary: s)
  case Nil
  then show ?case by simp
next
  case (Cons c cs)
  from Cons.prems obtain s' where a: "fst (invoke c s) = Inr s'" and b: "chain cs s' = Inr r"
    by (rule chain_Cons_Inr)
  from invoke_Inr [OF a] have "order s' = order s @ [category c]"
    by (cases c) (simp_all add: added_def)
  with Cons.IH [OF b] show ?case by simp
qed

lemma slot_added:
  "slot p (added c s) =
     (if category c = p \<and> p \<in> {PElement, PId, PPseudoElement} then Some (arg c)
      else slot p s)"
  by (cases c; cases p) (simp_all add: slot_def added_def)

lemma chain_slot:
  "chain cs s = Inr r \<Longrightarrow> p \<in> {PElement, PId, PPseudoElement} \<Longrightarrow>
     olist (slot p s) @ argsOf p cs = olist (slot p r)"
proof (induction cs arbitrary: s)
  case Nil
  then show ?case by (simp add: argsOf_def)
next
  case (Cons c cs)
  from Cons.prems(1) obtain s' where a: "fst (invoke c s) = Inr s'" and b: "chain cs s' = Inr r"
    by (rule chain_Cons_Inr)
  from invoke_Inr [OF a] have s': "s' = added c s" and free: "slot (category c) s = None"
    by simp_all
  note ih = Cons.IH [OF b Cons.prems(2)]
  show ?case
  proof (cases "category c = p")
    case True
    with free have "slot p s = None" by simp
    moreover from True Cons.prems(2) have "slot p s' = Some (arg c)"
      by (simp add: s' slot_added)
    ultimately show ?thesis using ih True by (simp add: argsOf_def)
  next
    case False
    then have "slot p s' = slot p s" by (simp add: s' slot_added)
    then show ?thesis using ih False by (simp add: argsOf_def)
  qed
qed

lemma lineage_slot:
  assumes "lineage cs = Inr s" and "p \<in> {PElement, PId, PPseudoElement}"
  shows "olist (slot p s) = argsOf p cs"
proof -
  from assms(1) have "chain cs newSelector = Inr s" by (simp add: lineage_def)
  from chain_slot [OF this assms(2)] have "olist (slot p newSelector) @ argsOf p cs = olist (slot p s)" .
  moreover have "slot p newSelector = None"
    by (cases p) (simp_all add: slot_def newSelector_def)
  ultimately show ?thesis by simp
qed

lemma chain_classes: "chain cs s = Inr r \<Longrightarrow> classes r = classes s @ argsOf PClass cs"
proof (induction cs arbitrary: s)
  case Nil
  then show ?case by (simp add: argsOf_def)
next
  case (Cons c cs)
  from Cons.prems obtain s' where a: "fst (invoke c s) = Inr s'" and b: "chain cs s' = Inr r"
    by (rule chain_Cons_Inr)
  from invoke_Inr [OF a] have "classes s' = classes s @ argsOf PClass [c]"
    by (cases c) (simp_all add: added_def argsOf_def)
  with Cons.IH [OF b] show ?case by (simp add: argsOf_def)
qed

lemma chain_attributes:
  "chain cs s = Inr r \<Longrightarrow> attributes r = attributes s @ argsOf PAttr cs"
proof (induction cs arbitrary: s)
  case Nil
  then show ?case by (simp add: argsOf_def)
next
  case (Cons c cs)
  from Cons.prems obtain s' where a: "fst (invoke c s) = Inr s'" and b: "chain cs s' = Inr r"
    by (rule chain_Cons_Inr)
  from invoke_Inr [OF a] have "attributes s' = attributes s @ argsOf PAttr [c]"
    by (cases c) (simp_all add: added_def argsOf_def)
  with Cons.IH [OF b] show ?case by (simp add: argsOf_def)
qed

lemma chain_pseudoClasses:
  "chain cs s = Inr r \<Longrightarrow> pseudoClasses r = pseudoClasses s @ argsOf PPseudoClass cs"
proof (induction cs arbitrary: s)
  case Nil
  then show ?case by (simp add: argsOf_def)
next
  case (Cons c cs)
  from Cons.prems obtain s' where a: "fst (invoke c s) = Inr s'" and b: "chain cs s' = Inr r"
    by (rule chain_Cons_Inr)
  from invoke_Inr [OF a] have "pseudoClasses s' = pseudoClasses s @ argsOf PPseudoClass [c]"
    by (cases c) (simp_all add: added_def argsOf_def)
  with Cons.IH [OF b] show ?case by (simp add: argsOf_def)
qed

lemma lineage_eval:
  "lineage [] = Inr newSelector"
  "lineage (c # cs) = (case fst (invoke c newSelector) of Inl e \<Rightarrow> Inl e | Inr s' \<Rightarrow> chain cs s')"
  by (simp_all add: lineage_def)

lemma invoke_receiver:
  "snd (invoke c s) =
     (case fst (invoke c s) of Inl e \<Rightarrow> s | Inr r \<Rightarrow> s\<lparr>order := order s @ [category c]\<rparr>)"
  by (cases c)
     (auto simp: method_defs check_defs split: sum.splits if_splits)

text \<open>
  C3. In a lineage that already holds a call of one of the three single-occurrence
  categories (element, id, pseudo-element), a further call of that category throws the
  duplicate error, whatever the order sequence holds, and the receiver is as before: the
  check comes before the ordering check, which would have pushed onto the order
  sequence, and before the copy.
\<close>

theorem duplicate_part_rejected:
  assumes "lineage cs = Inr s" and "c' \<in> set cs" and "category c' = category c"
    and "category c \<in> {PElement, PId, PPseudoElement}"
  shows "invoke c s = (Inl DuplicateSelectorPartError, s)"
proof -
  from assms(2,3) have "argsOf (category c) cs \<noteq> []"
    by (auto simp: argsOf_def filter_empty_conv)
  with lineage_slot [OF assms(1,4)] have "slot (category c) s \<noteq> None"
    by (cases "slot (category c) s") auto
  then have "fst (invoke c s) = Inl DuplicateSelectorPartError"
    by (simp add: invoke_result)
  then show ?thesis by (simp add: prod_eq_iff invoke_receiver)
qed

theorem duplicate_part_rejected_witness:
  "lineage [ElementCall ''div'', IdCall ''main'', ClassCall ''x'']
     = Inr (newSelector\<lparr>elementName := Some ''div'', idName := Some ''main'',
              classes := [''x''], order := [PElement, PId, PClass]\<rparr>)
   \<and> invoke (ElementCall ''span'')
        (newSelector\<lparr>elementName := Some ''div'', idName := Some ''main'',
              classes := [''x''], order := [PElement, PId, PClass]\<rparr>)
     = (Inl DuplicateSelectorPartError,
        newSelector\<lparr>elementName := Some ''div'', idName := Some ''main'',
              classes := [''x''], order := [PElement, PId, PClass]\<rparr>)"
proof -
  have l: "lineage [ElementCall ''div'', IdCall ''main'', ClassCall ''x'']
     = Inr (newSelector\<lparr>elementName := Some ''div'', idName := Some ''main'',
              classes := [''x''], order := [PElement, PId, PClass]\<rparr>)"
    by (simp add: lineage_eval method_defs check_defs clone_ident newSelector_def)
  from l duplicate_part_rejected [OF l, of "ElementCall ''div''" "ElementCall ''span''"]
  show ?thesis by simp
qed

text \<open>
  C2, as the code has it. After a non-empty lineage, a call whose rank is strictly lower
  than the rank of the preceding call throws: the ordering error, unless the call is of a
  single-occurrence category that the lineage already holds, where the duplicate check
  comes first and its error is thrown. A call of equal or higher rank passes the
  ordering check and never throws the ordering error. The instance \<open>id('x')\<close> then
  \<open>element('div')\<close> throws the ordering error.
\<close>

theorem ordering_check:
  assumes "lineage cs = Inr s" and "cs \<noteq> []"
  shows "(orderMap (category c) < orderMap (category (last cs)) \<longrightarrow>
            fst (invoke c s) =
              Inl (if category c \<in> {PElement, PId, PPseudoElement} \<and>
                      category c \<in> category ` set cs
                   then DuplicateSelectorPartError else InvalidSelectorOrderError))
       \<and> (orderMap (category (last cs)) \<le> orderMap (category c) \<longrightarrow>
            Selector_checkOrder (category c) s = Inr (s\<lparr>order := order s @ [category c]\<rparr>)
            \<and> fst (invoke c s) \<noteq> Inl InvalidSelectorOrderError
            \<and> (category c \<in> {PClass, PAttr, PPseudoClass} \<longrightarrow>
                   (\<exists>r. fst (invoke c s) = Inr r)))"
proof -
  from assms(1) have "chain cs newSelector = Inr s" by (simp add: lineage_def)
  from chain_order [OF this] have o: "order s = map category cs" by (simp add: newSelector_def)
  with assms(2) have ne: "order s \<noteq> []" and l: "last (order s) = category (last cs)"
    by (simp_all add: last_map)
  have d: "slot (category c) s \<noteq> None \<longleftrightarrow>
             category c \<in> {PElement, PId, PPseudoElement} \<and> category c \<in> category ` set cs"
  proof (cases "category c \<in> {PElement, PId, PPseudoElement}")
    case True
    from lineage_slot [OF assms(1) True] have "slot (category c) s \<noteq> None \<longleftrightarrow> argsOf (category c) cs \<noteq> []"
      by (cases "slot (category c) s") auto
    also have "\<dots> \<longleftrightarrow> category c \<in> category ` set cs"
      by (auto simp: argsOf_def filter_empty_conv intro: rev_image_eqI)
    finally show ?thesis using True by simp
  next
    case False
    then show ?thesis by (cases "category c") (simp_all add: slot_def)
  qed
  show ?thesis
    using ne l d by (auto simp: invoke_result Selector_checkOrder_def)
qed

theorem ordering_check_witness:
  "lineage [IdCall ''x''] = Inr (newSelector\<lparr>idName := Some ''x'', order := [PId]\<rparr>)
   \<and> orderMap (category (ElementCall ''div'')) < orderMap (category (last [IdCall ''x'']))
   \<and> fst (invoke (ElementCall ''div'') (newSelector\<lparr>idName := Some ''x'', order := [PId]\<rparr>))
       = Inl InvalidSelectorOrderError
   \<and> orderMap (category (last [IdCall ''x''])) \<le> orderMap (category (ClassCall ''a''))
   \<and> Selector_checkOrder PClass (newSelector\<lparr>idName := Some ''x'', order := [PId]\<rparr>)
       = Inr (newSelector\<lparr>idName := Some ''x'', order := [PId, PClass]\<rparr>)
   \<and> fst (invoke (ClassCall ''a'') (newSelector\<lparr>idName := Some ''x'', order := [PId]\<rparr>))
       \<noteq> Inl InvalidSelectorOrderError
   \<and> (\<exists>r. fst (invoke (ClassCall ''a'')
                  (newSelector\<lparr>idName := Some ''x'', order := [PId]\<rparr>)) = Inr r)"
proof -
  have l: "lineage [IdCall ''x''] = Inr (newSelector\<lparr>idName := Some ''x'', order := [PId]\<rparr>)"
    by (simp add: lineage_eval method_defs check_defs clone_ident newSelector_def)
  have n: "[IdCall ''x''] \<noteq> []" by simp
  from l ordering_check [OF l n, of "ElementCall ''div''"] ordering_check [OF l n, of "ClassCall ''a''"]
  show ?thesis by (simp add: newSelector_def)
qed

text \<open>
  The claim as worded, every strictly lower rank throws the ordering error, fails after
  \<open>element('div').class('x')\<close>: a second \<open>element\<close> call has the lower rank and throws
  the duplicate error.
\<close>

theorem ordering_error_counterexample:
  "\<not> (\<forall>cs s c. lineage cs = Inr s \<and> cs \<noteq> [] \<and>
         orderMap (category c) < orderMap (category (last cs)) \<longrightarrow>
         fst (invoke c s) = Inl InvalidSelectorOrderError)"
proof
  assume a: "\<forall>cs s c. lineage cs = Inr s \<and> cs \<noteq> [] \<and>
         orderMap (category c) < orderMap (category (last cs)) \<longrightarrow>
         fst (invoke c s) = Inl InvalidSelectorOrderError"
  have l: "lineage [ElementCall ''div'', ClassCall ''x'']
     = Inr (newSelector\<lparr>elementName := Some ''div'', classes := [''x''],
              order := [PElement, PClass]\<rparr>)"
    by (simp add: lineage_eval method_defs check_defs clone_ident newSelector_def)
  have "orderMap (category (ElementCall ''span'')) < orderMap (category (last [ElementCall ''div'', ClassCall ''x'']))"
    by simp
  with a l have "fst (invoke (ElementCall ''span'')
        (newSelector\<lparr>elementName := Some ''div'', classes := [''x''],
              order := [PElement, PClass]\<rparr>)) = Inl InvalidSelectorOrderError"
    by blast
  then show False
    by (simp add: Selector_element_def check_defs newSelector_def)
qed

subsection \<open>Serialisation of a lineage\<close>

lemma stringify_olist:
  "Selector_stringify s =
     concat (olist (elementName s)) @
     concat (map (\<lambda>v. ''#'' @ v) (filter (\<lambda>v. v \<noteq> []) (olist (idName s)))) @
     concat (map (\<lambda>v. ''.'' @ v) (classes s)) @
     concat (map (\<lambda>v. ''['' @ v @ '']'') (attributes s)) @
     concat (map (\<lambda>v. '':'' @ v) (pseudoClasses s)) @
     concat (map (\<lambda>v. ''::'' @ v) (filter (\<lambda>v. v \<noteq> []) (olist (pseudoElementName s))))"
proof -
  have e: "(if truthy x then the x else []) = concat (olist x)" for x
    by (cases x) auto
  have f: "(if truthy x then p @ the x else []) =
             concat (map (\<lambda>v. p @ v) (filter (\<lambda>v. v \<noteq> []) (olist x)))" for x p
    by (cases x) auto
  have g: "mapClass = (\<lambda>v. ''.'' @ v)" "mapAttr = (\<lambda>v. ''['' @ v @ '']'')"
    "mapPseudoClass = (\<lambda>v. '':'' @ v)"
    by (auto simp: mapClass_def mapAttr_def mapPseudoClass_def)
  show ?thesis unfolding Selector_stringify_def e f g ..
qed

text \<open>
  C4, as the code has it. The selector a lineage builds serialises to the fixed-order
  concatenation over its calls, whatever order they came in: element name bare, id
  after \<open>#\<close>, classes after \<open>.\<close>, attributes in brackets, pseudo-classes after \<open>:\<close>,
  pseudo-element after \<open>::\<close>, each list in call order, where an id or pseudo-element
  that is the empty string contributes nothing, like an absent one.
\<close>

theorem stringify_lineage:
  assumes "lineage cs = Inr s"
  shows "Selector_stringify s = serialize_nonempty cs"
proof -
  from assms have c: "chain cs newSelector = Inr s" by (simp add: lineage_def)
  have 1: "olist (elementName s) = argsOf PElement cs"
    using lineage_slot [OF assms, of PElement] by (simp add: slot_def)
  have 2: "olist (idName s) = argsOf PId cs"
    using lineage_slot [OF assms, of PId] by (simp add: slot_def)
  have 3: "olist (pseudoElementName s) = argsOf PPseudoElement cs"
    using lineage_slot [OF assms, of PPseudoElement] by (simp add: slot_def)
  have 4: "classes s = argsOf PClass cs"
    using chain_classes [OF c] by (simp add: newSelector_def)
  have 5: "attributes s = argsOf PAttr cs"
    using chain_attributes [OF c] by (simp add: newSelector_def)
  have 6: "pseudoClasses s = argsOf PPseudoClass cs"
    using chain_pseudoClasses [OF c] by (simp add: newSelector_def)
  show ?thesis unfolding stringify_olist serialize_nonempty_def 1 2 3 4 5 6 ..
qed

theorem stringify_lineage_witness:
  "lineage [IdCall ''main'', ClassCall ''container'', ClassCall ''editable'']
     = Inr (newSelector\<lparr>idName := Some ''main'', classes := [''container'', ''editable''],
              order := [PId, PClass, PClass]\<rparr>)
   \<and> Selector_stringify
        (newSelector\<lparr>idName := Some ''main'', classes := [''container'', ''editable''],
              order := [PId, PClass, PClass]\<rparr>)
     = ''#main.container.editable''"
proof -
  have l: "lineage [IdCall ''main'', ClassCall ''container'', ClassCall ''editable'']
     = Inr (newSelector\<lparr>idName := Some ''main'', classes := [''container'', ''editable''],
              order := [PId, PClass, PClass]\<rparr>)"
    by (simp add: lineage_eval method_defs check_defs clone_ident newSelector_def)
  from l stringify_lineage [OF l] show ?thesis
    by (simp add: serialize_nonempty_def argsOf_def)
qed

text \<open>
  The claim as worded, the id always prefixed with \<open>#\<close>, fails for \<open>id('')\<close>: the
  selector serialises to the empty string, not to \<open>#\<close>.
\<close>

theorem serialize_spec_counterexample:
  "\<not> (\<forall>cs s. lineage cs = Inr s \<longrightarrow> Selector_stringify s = serialize_spec cs)"
proof
  assume a: "\<forall>cs s. lineage cs = Inr s \<longrightarrow> Selector_stringify s = serialize_spec cs"
  have l: "lineage [IdCall ''''] = Inr (newSelector\<lparr>idName := Some '''', order := [PId]\<rparr>)"
    by (simp add: lineage_eval method_defs check_defs clone_ident newSelector_def)
  from a l have "Selector_stringify (newSelector\<lparr>idName := Some '''', order := [PId]\<rparr>)
                   = serialize_spec [IdCall '''']"
    by blast
  then show False
    by (simp add: Selector_stringify_def serialize_spec_def argsOf_def newSelector_def)
qed

section \<open>Properties of the object helpers\<close>

subsection \<open>Enumeration\<close>

lemma set_Object_entries: "set (Object_entries obj) = set obj"
  by (auto simp: Object_entries_def)

lemma length_Object_entries: "length (Object_entries obj) = length obj"
  by (simp add: Object_entries_def sum_length_filter_compl)

lemma distinct_Object_entries:
  assumes "distinct (map fst obj)"
  shows "distinct (map fst (Object_entries obj))"
proof -
  from assms have d: "distinct obj" and i: "inj_on fst (set obj)"
    by (simp_all add: distinct_map)
  have "distinct (Object_entries obj)"
    using d by (auto simp: Object_entries_def)
  moreover have "inj_on fst (set (Object_entries obj))"
    using i by (simp add: set_Object_entries)
  ultimately show ?thesis by (simp add: distinct_map)
qed

lemma Object_entries_no_index:
  assumes "\<forall>k \<in> fst ` set obj. \<not> isArrayIndex k"
  shows "Object_entries obj = obj"
proof -
  from assms have n: "\<forall>e \<in> set obj. \<not> isArrayIndex (fst e)" by auto
  then have "filter (\<lambda>e. isArrayIndex (fst e)) obj = []"
    by (simp add: filter_empty_conv)
  moreover from n have "filter (\<lambda>e. \<not> isArrayIndex (fst e)) obj = obj"
    by (simp add: filter_id_conv)
  ultimately show ?thesis by (simp add: Object_entries_def)
qed

lemma map_of_Object_entries:
  "distinct (map fst obj) \<Longrightarrow> map_of (Object_entries obj) = map_of obj"
proof -
  assume d: "distinct (map fst obj)"
  have "map_of (Object_entries obj) = map_of obj \<longleftrightarrow> set (Object_entries obj) = set obj"
    by (rule map_of_inject_set [OF distinct_Object_entries [OF d] d])
  then show ?thesis by (simp only: set_Object_entries)
qed

lemma otherProps_Object_entries: "otherProps (Object_entries obj) = otherProps obj"
proof -
  have "filter (\<lambda>e. \<not> isArrayIndex (fst e))
          (sort_key (\<lambda>e. toNumber (fst e)) (filter (\<lambda>e. isArrayIndex (fst e)) obj)) = []"
    by (simp add: filter_empty_conv)
  then show ?thesis by (simp add: otherProps_def Object_entries_def)
qed

subsection \<open>Array indices name their numbers\<close>

lemma digitValue_range: "isDigit c \<Longrightarrow> 0 \<le> digitValue c \<and> digitValue c \<le> 9"
  by (auto simp: isDigit_def digitValue_def)

lemma digitValue_inj: "isDigit c \<Longrightarrow> isDigit d \<Longrightarrow> digitValue c = digitValue d \<Longrightarrow> c = d"
  by (auto simp: isDigit_def digitValue_def)

lemma digitValue_zero: "isDigit c \<Longrightarrow> digitValue c = 0 \<Longrightarrow> c = CHR ''0''"
  by (auto simp: isDigit_def digitValue_def)

lemma toNumber_snoc: "toNumber (k @ [c]) = 10 * toNumber k + digitValue c"
  by (simp add: toNumber_def)

lemma toNumber_nonneg: "list_all isDigit k \<Longrightarrow> 0 \<le> toNumber k"
proof (induction k rule: rev_induct)
  case Nil
  then show ?case by (simp add: toNumber_def)
next
  case (snoc c k)
  then have "0 \<le> toNumber k" "0 \<le> digitValue c"
    by (simp_all add: digitValue_range)
  then show ?case by (simp add: toNumber_snoc)
qed

lemma toNumber_pos:
  "list_all isDigit k \<Longrightarrow> k \<noteq> [] \<Longrightarrow> hd k \<noteq> CHR ''0'' \<Longrightarrow> 0 < toNumber k"
proof (induction k rule: rev_induct)
  case Nil
  then show ?case by simp
next
  case (snoc c k)
  from snoc.prems(1) have dk: "list_all isDigit k" and dc: "isDigit c" by simp_all
  show ?case
  proof (cases "k = []")
    case True
    with snoc.prems(3) have "c \<noteq> CHR ''0''" by simp
    with dc have "digitValue c \<noteq> 0" by (auto dest: digitValue_zero)
    with digitValue_range [OF dc] have "0 < digitValue c" by simp
    with True show ?thesis by (simp add: toNumber_snoc toNumber_def)
  next
    case False
    with snoc.prems(3) have "hd k \<noteq> CHR ''0''" by simp
    from snoc.IH [OF dk False this] digitValue_range [OF dc]
    show ?thesis by (simp add: toNumber_snoc)
  qed
qed

lemma toNumber_inj_aux:
  "list_all isDigit k \<Longrightarrow> list_all isDigit k' \<Longrightarrow>
     (k \<noteq> [] \<longrightarrow> hd k \<noteq> CHR ''0'') \<Longrightarrow> (k' \<noteq> [] \<longrightarrow> hd k' \<noteq> CHR ''0'') \<Longrightarrow>
     toNumber k = toNumber k' \<Longrightarrow> k = k'"
proof (induction k arbitrary: k' rule: rev_induct)
  case Nil
  show ?case
  proof (cases "k' = []")
    case True
    then show ?thesis by simp
  next
    case False
    with Nil.prems have "0 < toNumber k'" by (simp add: toNumber_pos)
    with Nil.prems(5) show ?thesis by (simp add: toNumber_def)
  qed
next
  case (snoc c k)
  from snoc.prems(1) have dk: "list_all isDigit k" and dc: "isDigit c" by simp_all
  have kc: "k @ [c] \<noteq> []" by simp
  with snoc.prems(3) have h: "hd (k @ [c]) \<noteq> CHR ''0''" by blast
  from toNumber_pos [OF snoc.prems(1) kc h] snoc.prems(5) have "0 < toNumber k'" by simp
  then have "k' \<noteq> []" by (auto simp: toNumber_def)
  then obtain l d where k': "k' = l @ [d]" by (cases k' rule: rev_cases) auto
  from snoc.prems(2) have dl: "list_all isDigit l" and dd: "isDigit d" by (simp_all add: k')
  from snoc.prems(4) have h': "hd (l @ [d]) \<noteq> CHR ''0''" by (simp add: k')
  from snoc.prems(5) have e: "10 * toNumber k + digitValue c = 10 * toNumber l + digitValue d"
    by (simp add: k' toNumber_snoc)
  from e digitValue_range [OF dc] digitValue_range [OF dd]
  have ed: "digitValue c = digitValue d" and en: "toNumber k = toNumber l" by presburger+
  from digitValue_inj [OF dc dd ed] have cd: "c = d" .
  have hk: "k \<noteq> [] \<longrightarrow> hd k \<noteq> CHR ''0''" using h by auto
  have hl: "l \<noteq> [] \<longrightarrow> hd l \<noteq> CHR ''0''" using h' by auto
  from snoc.IH [OF dk dl hk hl en] cd show ?case by (simp add: k')
qed

lemma toNumber_inj:
  assumes "isArrayIndex k" and "isArrayIndex k'" and "toNumber k = toNumber k'"
  shows "k = k'"
proof -
  have z: "toNumber ''0'' = 0" by (simp add: toNumber_def digitValue_def)
  have zero: "x = ''0''" if "isArrayIndex x" and "toNumber x = 0" for x
  proof (rule ccontr)
    assume "x \<noteq> ''0''"
    with that(1) have "list_all isDigit x" "x \<noteq> []" "hd x \<noteq> CHR ''0''"
      by (auto simp: isArrayIndex_def)
    from toNumber_pos [OF this] that(2) show False by simp
  qed
  show ?thesis
  proof (cases "k = ''0'' \<or> k' = ''0''")
    case True
    then show ?thesis using assms z zero by metis
  next
    case False
    with assms(1,2) show ?thesis
      by (intro toNumber_inj_aux [OF _ _ _ _ assms(3)]) (auto simp: isArrayIndex_def)
  qed
qed

lemma index_part_unique:
  assumes d1: "distinct (map fst obj1)" and d2: "distinct (map fst obj2)"
    and s: "set obj1 = set obj2"
  shows "sort_key (\<lambda>e. toNumber (fst e)) (filter (\<lambda>e. isArrayIndex (fst e)) obj1) =
         sort_key (\<lambda>e. toNumber (fst e)) (filter (\<lambda>e. isArrayIndex (fst e)) obj2)"
    (is "?A1 = ?A2")
proof -
  let ?f = "\<lambda>e :: string \<times> 'a. toNumber (fst e)"
  let ?I = "{e \<in> set obj1. isArrayIndex (fst e)}"
  from d1 have i1: "inj_on fst (set obj1)" and dd1: "distinct obj1" by (simp_all add: distinct_map)
  from d2 have dd2: "distinct obj2" by (simp add: distinct_map)
  have inj: "inj_on ?f ?I"
  proof (rule inj_onI)
    fix x y assume x: "x \<in> ?I" and y: "y \<in> ?I" and e: "?f x = ?f y"
    then have "fst x = fst y" by (auto intro: toNumber_inj)
    with i1 x y show "x = y" by (auto dest: inj_onD)
  qed
  have s1: "set ?A1 = ?I" by auto
  have s2: "set ?A2 = ?I" using s by auto
  have "distinct (map ?f ?A1)" using dd1 inj s1 by (simp add: distinct_map)
  moreover have "distinct (map ?f ?A2)" using dd2 inj s2 by (simp add: distinct_map)
  moreover have "sorted (map ?f ?A1)" "sorted (map ?f ?A2)" by simp_all
  moreover have "set (map ?f ?A1) = set (map ?f ?A2)" using s1 s2 by simp
  ultimately have "map ?f ?A1 = map ?f ?A2" by (metis sorted_distinct_set_unique)
  moreover have "inj_on ?f (set ?A1 \<union> set ?A2)" using inj s1 s2 by simp
  ultimately show ?thesis by (simp add: inj_on_map_eq_map)
qed

lemma entries_eq_iff:
  assumes "distinct (map fst obj1)" and "distinct (map fst obj2)" and "set obj1 = set obj2"
  shows "Object_entries obj1 = Object_entries obj2 \<longleftrightarrow> otherProps obj1 = otherProps obj2"
proof
  assume "Object_entries obj1 = Object_entries obj2"
  then have "otherProps (Object_entries obj1) = otherProps (Object_entries obj2)" by simp
  then show "otherProps obj1 = otherProps obj2" by (simp only: otherProps_Object_entries)
next
  assume "otherProps obj1 = otherProps obj2"
  with index_part_unique [OF assms] show "Object_entries obj1 = Object_entries obj2"
    by (simp add: Object_entries_def otherProps_def)
qed

subsection \<open>compareObjects\<close>

lemma strictNotEqual_iff: "strictNotEqual x y \<longleftrightarrow> x \<noteq> y \<or> x = JsNaN"
  by (cases x; cases y) auto

lemma compare_from_iff:
  "length entries1 = length entries2 \<Longrightarrow>
     compare_from entries1 entries2 i \<longleftrightarrow>
       (\<forall>j. i \<le> j \<and> j < length entries1 \<longrightarrow>
          entries1 ! j = entries2 ! j \<and> snd (entries1 ! j) \<noteq> JsNaN)"
proof (induction entries1 entries2 i rule: compare_from.induct)
  case (1 entries1 entries2 i)
  let ?ok = "\<lambda>j. entries1 ! j = entries2 ! j \<and> snd (entries1 ! j) \<noteq> JsNaN"
  have step: "fst (entries1 ! i) \<noteq> fst (entries2 ! i) \<or>
              strictNotEqual (snd (entries1 ! i)) (snd (entries2 ! i)) \<longleftrightarrow> \<not> ?ok i"
    by (auto simp: strictNotEqual_iff prod_eq_iff)
  show ?case
  proof (cases "i < length entries1")
    case False
    then have "compare_from entries1 entries2 i" by (subst compare_from.simps) simp
    with False show ?thesis by auto
  next
    case True
    show ?thesis
    proof (cases "?ok i")
      case False
      with True step have "\<not> compare_from entries1 entries2 i"
        by (subst compare_from.simps) simp
      moreover from True False have "\<not> (\<forall>j. i \<le> j \<and> j < length entries1 \<longrightarrow> ?ok j)"
        by blast
      ultimately show ?thesis by simp
    next
      case ok: True
      from ok step have ne: "\<not> (fst (entries1 ! i) \<noteq> fst (entries2 ! i) \<or>
              strictNotEqual (snd (entries1 ! i)) (snd (entries2 ! i)))"
        by blast
      from True ne have "compare_from entries1 entries2 i = compare_from entries1 entries2 (i + 1)"
        by (subst compare_from.simps) simp
      also from "1.IH" [OF True ne "1.prems"]
      have "\<dots> \<longleftrightarrow> (\<forall>j. i + 1 \<le> j \<and> j < length entries1 \<longrightarrow> ?ok j)" .
      also have "\<dots> \<longleftrightarrow> (\<forall>j. i \<le> j \<and> j < length entries1 \<longrightarrow> ?ok j)"
      proof -
        have "i \<le> j \<longleftrightarrow> j = i \<or> i + 1 \<le> j" for j by auto
        then show ?thesis using ok by auto
      qed
      finally show ?thesis .
    qed
  qed
qed

lemma compareObjects_iff:
  "compareObjects obj1 obj2 \<longleftrightarrow>
     Object_entries obj1 = Object_entries obj2 \<and> JsNaN \<notin> snd ` set obj1"
proof (cases "length (Object_entries obj1) = length (Object_entries obj2)")
  case False
  then show ?thesis by (auto simp: compareObjects_def Let_def)
next
  case True
  let ?e1 = "Object_entries obj1" and ?e2 = "Object_entries obj2"
  have "compareObjects obj1 obj2 \<longleftrightarrow> compare_from ?e1 ?e2 0"
    using True by (simp add: compareObjects_def Let_def)
  also have "\<dots> \<longleftrightarrow> (\<forall>j. j < length ?e1 \<longrightarrow> ?e1 ! j = ?e2 ! j \<and> snd (?e1 ! j) \<noteq> JsNaN)"
    by (simp add: compare_from_iff [OF True])
  also have "\<dots> \<longleftrightarrow> (\<forall>j. j < length ?e1 \<longrightarrow> ?e1 ! j = ?e2 ! j) \<and>
                       (\<forall>j. j < length ?e1 \<longrightarrow> snd (?e1 ! j) \<noteq> JsNaN)"
    by blast
  also have "(\<forall>j. j < length ?e1 \<longrightarrow> ?e1 ! j = ?e2 ! j) \<longleftrightarrow> ?e1 = ?e2"
    using True by (simp add: list_eq_iff_nth_eq)
  also have "(\<forall>j. j < length ?e1 \<longrightarrow> snd (?e1 ! j) \<noteq> JsNaN) \<longleftrightarrow> JsNaN \<notin> snd ` set ?e1"
  proof
    assume a: "\<forall>j. j < length ?e1 \<longrightarrow> snd (?e1 ! j) \<noteq> JsNaN"
    show "JsNaN \<notin> snd ` set ?e1"
    proof
      assume "JsNaN \<in> snd ` set ?e1"
      then obtain x where "x \<in> set ?e1" and x: "snd x = JsNaN" by force
      then obtain j where "j < length ?e1" and "?e1 ! j = x" by (auto simp: in_set_conv_nth)
      with a x show False by auto
    qed
  next
    assume a: "JsNaN \<notin> snd ` set ?e1"
    show "\<forall>j. j < length ?e1 \<longrightarrow> snd (?e1 ! j) \<noteq> JsNaN"
    proof (intro allI impI)
      fix j assume "j < length ?e1"
      then have "snd (?e1 ! j) \<in> snd ` set ?e1" by (intro imageI nth_mem)
      with a show "snd (?e1 ! j) \<noteq> JsNaN" by metis
    qed
  qed
  finally show ?thesis by (simp only: set_Object_entries)
qed

text \<open>
  C9, as the code has it. \<open>compareObjects\<close> compares the two enumerations position by
  position with \<^verbatim>\<open>!==\<close>: it returns true exactly when the key sequences and the value
  sequences of \<^verbatim>\<open>Object.entries\<close> coincide and no value is \<^verbatim>\<open>NaN\<close>. Objects whose
  properties with other than array-index keys differ, be it only in their insertion
  order, compare as unequal. Two objects that hold the same pairs compare as equal
  exactly when those properties stand in the same order in both and no value is
  \<^verbatim>\<open>NaN\<close>: where the array-index keys were inserted makes no difference.
\<close>

theorem compareObjects_positional:
  "(compareObjects obj1 obj2 \<longleftrightarrow>
      map fst (Object_entries obj1) = map fst (Object_entries obj2) \<and>
      map snd (Object_entries obj1) = map snd (Object_entries obj2) \<and>
      JsNaN \<notin> snd ` set obj1)
   \<and> (otherProps obj1 \<noteq> otherProps obj2 \<longrightarrow> \<not> compareObjects obj1 obj2)
   \<and> (distinct (map fst obj1) \<and> distinct (map fst obj2) \<and> set obj1 = set obj2 \<longrightarrow>
        (compareObjects obj1 obj2 \<longleftrightarrow>
           otherProps obj1 = otherProps obj2 \<and> JsNaN \<notin> snd ` set obj1))"
proof -
  have "xs = ys \<longleftrightarrow> map fst xs = map fst ys \<and> map snd xs = map snd ys"
    for xs ys :: "(string \<times> 'a primitive) list"
    by (metis zip_map_fst_snd)
  then have 1: "compareObjects obj1 obj2 \<longleftrightarrow>
      map fst (Object_entries obj1) = map fst (Object_entries obj2) \<and>
      map snd (Object_entries obj1) = map snd (Object_entries obj2) \<and>
      JsNaN \<notin> snd ` set obj1"
    by (simp only: compareObjects_iff conj_assoc)
  have 2: "\<not> compareObjects obj1 obj2" if n: "otherProps obj1 \<noteq> otherProps obj2"
  proof
    assume "compareObjects obj1 obj2"
    then have "Object_entries obj1 = Object_entries obj2" by (simp only: compareObjects_iff)
    then have "otherProps (Object_entries obj1) = otherProps (Object_entries obj2)" by simp
    with n show False by (simp only: otherProps_Object_entries)
  qed
  have 3: "compareObjects obj1 obj2 \<longleftrightarrow>
             otherProps obj1 = otherProps obj2 \<and> JsNaN \<notin> snd ` set obj1"
    if "distinct (map fst obj1) \<and> distinct (map fst obj2) \<and> set obj1 = set obj2"
  proof -
    from that have "Object_entries obj1 = Object_entries obj2 \<longleftrightarrow>
                      otherProps obj1 = otherProps obj2"
      by (intro entries_eq_iff) simp_all
    then show ?thesis by (simp only: compareObjects_iff)
  qed
  from 1 2 3 show ?thesis by blast
qed

lemmas entries_eval =
  Object_entries_def isArrayIndex_def isDigit_def toNumber_def digitValue_def

theorem compareObjects_positional_witness:
  "otherProps [(''a'', JsNumber (1 :: int)), (''b'', JsNumber 2)]
     \<noteq> otherProps [(''b'', JsNumber 2), (''a'', JsNumber (1 :: int))]
   \<and> \<not> compareObjects [(''a'', JsNumber (1 :: int)), (''b'', JsNumber 2)]
                        [(''b'', JsNumber 2), (''a'', JsNumber 1)]
   \<and> distinct (map fst [(''1'', JsNumber (1 :: int)), (''a'', JsString ''x''), (''2'', JsNull)])
   \<and> distinct (map fst [(''2'', JsNull), (''1'', JsNumber (1 :: int)), (''a'', JsString ''x'')])
   \<and> set [(''1'', JsNumber (1 :: int)), (''a'', JsString ''x''), (''2'', JsNull)]
       = set [(''2'', JsNull), (''1'', JsNumber 1), (''a'', JsString ''x'')]
   \<and> compareObjects [(''1'', JsNumber (1 :: int)), (''a'', JsString ''x''), (''2'', JsNull)]
                      [(''2'', JsNull), (''1'', JsNumber 1), (''a'', JsString ''x'')]"
proof -
  let ?o1 = "[(''a'', JsNumber (1 :: int)), (''b'', JsNumber 2)]"
  let ?o2 = "[(''b'', JsNumber 2), (''a'', JsNumber (1 :: int))]"
  let ?o3 = "[(''1'', JsNumber (1 :: int)), (''a'', JsString ''x''), (''2'', JsNull)]"
  let ?o4 = "[(''2'', JsNull), (''1'', JsNumber (1 :: int)), (''a'', JsString ''x'')]"
  have n: "otherProps ?o1 \<noteq> otherProps ?o2"
    by (simp add: otherProps_def isArrayIndex_def isDigit_def)
  have d: "distinct (map fst ?o3) \<and> distinct (map fst ?o4) \<and> set ?o3 = set ?o4"
    by auto
  have e: "otherProps ?o3 = otherProps ?o4 \<and> JsNaN \<notin> snd ` set ?o3"
    by (simp add: otherProps_def isArrayIndex_def isDigit_def toNumber_def digitValue_def)
  from compareObjects_positional [of ?o1 ?o2] n have "\<not> compareObjects ?o1 ?o2" by blast
  moreover from compareObjects_positional [of ?o3 ?o4] d e have "compareObjects ?o3 ?o4" by blast
  ultimately show ?thesis using n d by blast
qed

text \<open>
  The claim as worded fails twice. The same pairs in different insertion orders do not
  always compare as unequal: \<^verbatim>\<open>{1: 1, 2: 2}\<close> and \<^verbatim>\<open>{2: 2, 1: 1}\<close> enumerate alike and
  compare as equal. And coinciding key and value sequences do not always compare as
  equal: \<^verbatim>\<open>{a: NaN}\<close> compared with itself gives false.
\<close>

theorem insertion_order_counterexample:
  "\<not> (\<forall>obj1 obj2 :: int primitive object.
         distinct (map fst obj1) \<and> distinct (map fst obj2) \<and> set obj1 = set obj2 \<and>
         obj1 \<noteq> obj2 \<longrightarrow> \<not> compareObjects obj1 obj2)
   \<and> \<not> (\<forall>obj1 obj2 :: int primitive object.
         compareObjects obj1 obj2 \<longleftrightarrow>
           map fst (Object_entries obj1) = map fst (Object_entries obj2) \<and>
           map snd (Object_entries obj1) = map snd (Object_entries obj2))"
proof (rule conjI)
  let ?o1 = "[(''1'', JsNumber (1 :: int)), (''2'', JsNumber 2)]"
  let ?o2 = "[(''2'', JsNumber 2), (''1'', JsNumber (1 :: int))]"
  show "\<not> (\<forall>obj1 obj2 :: int primitive object.
         distinct (map fst obj1) \<and> distinct (map fst obj2) \<and> set obj1 = set obj2 \<and>
         obj1 \<noteq> obj2 \<longrightarrow> \<not> compareObjects obj1 obj2)"
  proof
    assume a: "\<forall>obj1 obj2 :: int primitive object.
         distinct (map fst obj1) \<and> distinct (map fst obj2) \<and> set obj1 = set obj2 \<and>
         obj1 \<noteq> obj2 \<longrightarrow> \<not> compareObjects obj1 obj2"
    have "distinct (map fst ?o1) \<and> distinct (map fst ?o2) \<and> set ?o1 = set ?o2 \<and> ?o1 \<noteq> ?o2"
      by auto
    with a have "\<not> compareObjects ?o1 ?o2" by blast
    moreover have "compareObjects ?o1 ?o2"
      by (simp add: compareObjects_iff entries_eval)
    ultimately show False by simp
  qed
next
  let ?o = "[(''a'', JsNaN)] :: int primitive object"
  show "\<not> (\<forall>obj1 obj2 :: int primitive object.
         compareObjects obj1 obj2 \<longleftrightarrow>
           map fst (Object_entries obj1) = map fst (Object_entries obj2) \<and>
           map snd (Object_entries obj1) = map snd (Object_entries obj2))"
  proof
    assume a: "\<forall>obj1 obj2 :: int primitive object.
         compareObjects obj1 obj2 \<longleftrightarrow>
           map fst (Object_entries obj1) = map fst (Object_entries obj2) \<and>
           map snd (Object_entries obj1) = map snd (Object_entries obj2)"
    then have "compareObjects ?o ?o" by blast
    moreover have "\<not> compareObjects ?o ?o"
      by (simp add: compareObjects_iff)
    ultimately show False by simp
  qed
qed

subsection \<open>mergeObjects\<close>

lemma oplus_None_right: "oplus add a None = a"
  by (cases a) simp_all

lemma map_of_replace:
  "map_of (map (\<lambda>e. if fst e = key then (key, value) else e) xs) k =
     (if k = key then (case map_of xs key of None \<Rightarrow> None | Some old \<Rightarrow> Some value)
      else map_of xs k)"
  by (induction xs) auto

lemma map_of_setProp:
  "map_of (setProp obj key value) k = (if k = key then Some value else map_of obj k)"
proof (cases "key \<in> fst ` set obj")
  case False
  then have "map_of obj key = None" by (simp add: map_of_eq_None_iff)
  with False show ?thesis by (auto simp: setProp_def map_add_def split: option.splits)
next
  case True
  then obtain old where "map_of obj key = Some old"
    by (cases "map_of obj key") (simp_all add: map_of_eq_None_iff)
  with True show ?thesis by (simp add: setProp_def map_of_replace)
qed

lemma keys_setProp:
  "map fst (setProp obj key value) =
     (if key \<in> fst ` set obj then map fst obj else map fst obj @ [key])"
proof -
  have "map fst (map (\<lambda>e. if fst e = key then (key, value) else e) obj) = map fst obj"
    by (induction obj) auto
  then show ?thesis by (simp add: setProp_def)
qed

lemma distinct_putProp:
  "distinct (map fst obj) \<Longrightarrow> distinct (map fst (putProp obj key value))"
  by (simp add: putProp_def keys_setProp)

lemma distinct_mergeEntries:
  "distinct (map fst result) \<Longrightarrow> distinct (map fst (mergeEntries add result elements))"
proof (induction elements arbitrary: result)
  case Nil
  then show ?case by simp
next
  case (Cons e elements)
  obtain key "value" where e: "e = (key, value)" by (cases e)
  show ?case unfolding e mergeEntries.simps
    by (rule Cons.IH) (simp add: distinct_putProp Cons.prems split: option.splits)
qed

lemma map_of_mergeEntries:
  "distinct (map fst elements) \<Longrightarrow> fst ` set elements \<inter> set Object_prototype = {} \<Longrightarrow>
     map_of (mergeEntries add result elements) k =
       oplus add (map_of result k) (map_option Number (map_of elements k))"
proof (induction elements arbitrary: result)
  case Nil
  then show ?case by (cases "map_of result k") simp_all
next
  case (Cons e elements)
  obtain key "value" where e: "e = (key, value)" by (cases e)
  from Cons.prems have d: "distinct (map fst elements)" and nk: "key \<notin> fst ` set elements"
    and p: "fst ` set elements \<inter> set Object_prototype = {}"
    and kp: "key \<notin> set Object_prototype"
    by (simp_all add: e)
  from kp have g: "getProp result key = map_of result key"
    by (simp add: getProp_def split: option.splits)
  from kp have "key \<noteq> ''__proto__''" by (auto simp: Object_prototype_def)
  then have put: "putProp result key v = setProp result key v" for v
    by (simp add: putProp_def)
  define result' where "result' =
    (case getProp result key of None \<Rightarrow> putProp result key (Number value)
     | Some old \<Rightarrow> putProp result key (jsadd add old (Number value)))"
  have r': "map_of result' k =
      (if k = key then oplus add (map_of result key) (Some (Number value)) else map_of result k)"
    by (simp add: result'_def g put map_of_setProp split: option.splits)
  have "map_of (mergeEntries add result (e # elements)) k =
          map_of (mergeEntries add result' elements) k"
    by (simp add: e result'_def)
  also have "\<dots> = oplus add (map_of result' k) (map_option Number (map_of elements k))"
    by (rule Cons.IH [OF d p])
  also have "\<dots> = oplus add (map_of result k) (map_option Number (map_of (e # elements) k))"
  proof (cases "k = key")
    case True
    with nk have n: "map_of elements k = None" by (simp add: map_of_eq_None_iff)
    from True r' have "map_of result' k = oplus add (map_of result k) (Some (Number value))"
      by simp
    with n True show ?thesis by (simp add: e oplus_None_right)
  next
    case False
    then show ?thesis by (simp add: r' e)
  qed
  finally show ?case .
qed

lemma distinct_mergeAll:
  "distinct (map fst result) \<Longrightarrow> distinct (map fst (mergeAll add result objects))"
  by (induction objects arbitrary: result) (simp_all add: distinct_mergeEntries)

lemma map_of_mergeAll:
  "\<forall>obj \<in> set objects. plainKeys obj \<Longrightarrow>
     map_of (mergeAll add result objects) k =
       foldl (oplus add) (map_of result k) (map (\<lambda>obj. map_option Number (map_of obj k)) objects)"
proof (induction objects arbitrary: result)
  case Nil
  then show ?case by simp
next
  case (Cons obj objects)
  from Cons.prems have d: "distinct (map fst obj)"
    and p: "fst ` set obj \<inter> set Object_prototype = {}"
    and ds: "\<forall>obj \<in> set objects. plainKeys obj"
    by (simp_all add: plainKeys_def)
  have "map_of (mergeEntries add result (Object_entries obj)) k =
          oplus add (map_of result k) (map_option Number (map_of obj k))"
    using p by (simp add: map_of_mergeEntries distinct_Object_entries d map_of_Object_entries
        set_Object_entries)
  with Cons.IH [OF ds] show ?case by simp
qed

lemma valuesOf_Cons:
  "valuesOf k (obj # objects) =
     (case map_of obj k of None \<Rightarrow> valuesOf k objects | Some v \<Rightarrow> v # valuesOf k objects)"
proof (cases "map_of obj k")
  case None
  then have "k \<notin> fst ` set obj" by (simp add: map_of_eq_None_iff)
  with None show ?thesis by (simp add: valuesOf_def)
next
  case (Some v)
  then have "k \<in> fst ` set obj" by (metis map_of_eq_None_iff option.distinct(1))
  with Some show ?thesis by (simp add: valuesOf_def)
qed

lemma foldl_oplus_Some:
  "foldl (oplus add) (Some (Number a)) (map (\<lambda>obj. map_option Number (map_of obj k)) objects) =
     Some (Number (foldl add a (valuesOf k objects)))"
proof (induction objects arbitrary: a)
  case Nil
  then show ?case by (simp add: valuesOf_def)
next
  case (Cons obj objects)
  then show ?case by (cases "map_of obj k") (simp_all add: valuesOf_Cons)
qed

lemma foldl_oplus_None:
  "foldl (oplus add) None (map (\<lambda>obj. map_option Number (map_of obj k)) objects) =
     total add k objects"
proof (induction objects)
  case Nil
  then show ?case by (simp add: total_def valuesOf_def)
next
  case (Cons obj objects)
  then show ?case
    by (cases "map_of obj k") (simp_all add: total_def valuesOf_Cons foldl_oplus_Some)
qed

lemma map_of_mergeObjects:
  "\<forall>obj \<in> set objects. plainKeys obj \<Longrightarrow>
     map_of (mergeObjects add objects) k = total add k objects"
  by (simp add: mergeObjects_def map_of_mergeAll foldl_oplus_None)

lemma valuesOf_empty_iff:
  "valuesOf k objects = [] \<longleftrightarrow> \<not> (\<exists>obj \<in> set objects. k \<in> fst ` set obj)"
  by (simp add: valuesOf_def filter_empty_conv)

text \<open>
  On objects none of whose keys names a member of \<^verbatim>\<open>Object.prototype\<close>, the merge is the
  one the task describes: the keys of the result are the union of the keys of the
  inputs, each key holds the sum of its values in the inputs, formed in input order,
  a key of one input only keeps its value, and no input gives the empty object.
\<close>

lemma mergeObjects_sums:
  assumes "\<forall>obj \<in> set objects. plainKeys obj"
  shows "fst ` set (mergeObjects add objects) = (\<Union>obj \<in> set objects. fst ` set obj)
       \<and> distinct (map fst (mergeObjects add objects))
       \<and> (\<forall>k \<in> fst ` set (mergeObjects add objects).
             valuesOf k objects \<noteq> [] \<and>
             map_of (mergeObjects add objects) k =
               Some (Number (foldl add (hd (valuesOf k objects)) (tl (valuesOf k objects)))))
       \<and> (\<forall>k obj. filter (\<lambda>obj. k \<in> fst ` set obj) objects = [obj] \<longrightarrow>
             map_of (mergeObjects add objects) k = map_option Number (map_of obj k))
       \<and> mergeObjects add [] = []"
proof -
  note m = map_of_mergeObjects [OF assms]
  have keys: "fst ` set (mergeObjects add objects) = (\<Union>obj \<in> set objects. fst ` set obj)"
  proof -
    have "fst ` set (mergeObjects add objects) = dom (map_of (mergeObjects add objects))"
      by (simp add: dom_map_of_conv_image_fst)
    also have "\<dots> = {k. total add k objects \<noteq> None}" by (auto simp: m)
    also have "\<dots> = {k. valuesOf k objects \<noteq> []}"
      by (auto simp: total_def split: list.splits)
    also have "\<dots> = (\<Union>obj \<in> set objects. fst ` set obj)"
      by (auto simp: valuesOf_empty_iff)
    finally show ?thesis .
  qed
  have d: "distinct (map fst (mergeObjects add objects))"
    by (simp add: mergeObjects_def distinct_mergeAll)
  have v: "valuesOf k objects \<noteq> [] \<and>
           map_of (mergeObjects add objects) k =
             Some (Number (foldl add (hd (valuesOf k objects)) (tl (valuesOf k objects))))"
    if "k \<in> fst ` set (mergeObjects add objects)" for k
  proof -
    from that have "valuesOf k objects \<noteq> []"
      unfolding keys by (auto simp: valuesOf_empty_iff)
    then show ?thesis by (cases "valuesOf k objects") (simp_all add: m total_def)
  qed
  have one: "map_of (mergeObjects add objects) k = map_option Number (map_of obj k)"
    if f: "filter (\<lambda>obj. k \<in> fst ` set obj) objects = [obj]" for k obj
  proof -
    have "obj \<in> set (filter (\<lambda>obj. k \<in> fst ` set obj) objects)" by (simp add: f)
    then have k: "k \<in> fst ` set obj" by simp
    then obtain x where x: "map_of obj k = Some x"
      by (cases "map_of obj k") (simp_all add: map_of_eq_None_iff)
    have "valuesOf k objects = [x]" by (simp add: valuesOf_def f x)
    then show ?thesis by (simp add: m total_def x)
  qed
  have e: "mergeObjects add [] = []" by (simp add: mergeObjects_def)
  from keys d v one e show ?thesis by blast
qed

lemmas merge_eval =
  mergeObjects_def setProp_def putProp_def getProp_def Object_prototype_def

lemma mergeObjects_example:
  "mergeObjects (+) [[(''a'', 1 :: int), (''b'', 2)], [(''b'', 3), (''c'', 5)]]
     = [(''a'', Number 1), (''b'', Number 5), (''c'', Number 5)]"
  by (simp add: merge_eval entries_eval)

text \<open>
  C8. A key that names a member of \<^verbatim>\<open>Object.prototype\<close> does not keep its value:
  \<^verbatim>\<open>result['constructor']\<close> is the inherited function, not \<^verbatim>\<open>undefined\<close>, so the code
  takes the \<^verbatim>\<open>+=\<close> branch and stores a string; and the key \<^verbatim>\<open>__proto__\<close> is lost.
\<close>

theorem mergeObjects_inherited_key:
  "mergeObjects add [[(''constructor'', 1 :: int)]] = [(''constructor'', NotNumber)]
   \<and> map_of (mergeObjects add [[(''constructor'', 1 :: int)]]) ''constructor''
       \<noteq> Some (Number 1)
   \<and> mergeObjects add [[(''__proto__'', 1 :: int)]] = []"
  by (simp add: merge_eval entries_eval)

section \<open>Properties of the ticket queue\<close>

lemma change75: "25 * i + 50 * j + 100 * k = (75::nat) \<Longrightarrow> k = 0 \<and> (i = 3 \<and> j = 0 \<or> i = 1 \<and> j = 1)"
proof -
  assume a: "25 * i + 50 * j + 100 * k = 75"
  then have "i + 2 * j + 4 * k = 3" by simp
  then show ?thesis by arith
qed

lemma change25: "25 * i + 50 * j + 100 * k = (25::nat) \<Longrightarrow> i = 1 \<and> j = 0 \<and> k = 0"
proof -
  assume a: "25 * i + 50 * j + 100 * k = 25"
  then have "i + 2 * j + 4 * k = 1" by simp
  then show ?thesis by arith
qed

lemma greedy_sound:
  "sellTickets_loop a b q \<Longrightarrow> set q \<subseteq> {25, 50, 100} \<Longrightarrow>
     \<exists>plan. length plan = length q \<and> serve (a, b, c) (zip q plan)"
proof (induction q arbitrary: a b c)
  case Nil
  then show ?case by simp
next
  case (Cons key q)
  from Cons.prems(2) have q: "set q \<subseteq> {25, 50, 100}" and k: "key = 25 \<or> key = 50 \<or> key = 100"
    by auto
  from k show ?case
  proof (elim disjE)
    assume key: "key = 25"
    with Cons.prems(1) have "sellTickets_loop (a + 1) b q" by simp
    from Cons.IH [OF this q, of c] obtain plan where
      "length plan = length q" "serve (a + 1, b, c) (zip q plan)" by blast
    then have "length ((0, 0, 0) # plan) = length (key # q) \<and>
               serve (a, b, c) (zip (key # q) ((0, 0, 0) # plan))"
      using key by simp
    then show ?thesis by blast
  next
    assume key: "key = 50"
    with Cons.prems(1) have a: "a > 0" and "sellTickets_loop (a - 1) (b + 1) q"
      by (simp_all split: if_splits)
    from Cons.IH [OF this(2) q, of c] obtain plan where
      "length plan = length q" "serve (a - 1, b + 1, c) (zip q plan)" by blast
    then have "length ((1, 0, 0) # plan) = length (key # q) \<and>
               serve (a, b, c) (zip (key # q) ((1, 0, 0) # plan))"
      using key a by simp
    then show ?thesis by blast
  next
    assume key: "key = 100"
    show ?thesis
    proof (cases "b > 0 \<and> a > 0")
      case True
      with key Cons.prems(1) have "sellTickets_loop (a - 1) (b - 1) q" by simp
      from Cons.IH [OF this q, of "c + 1"] obtain plan where
        "length plan = length q" "serve (a - 1, b - 1, c + 1) (zip q plan)" by blast
      then have "length ((1, 1, 0) # plan) = length (key # q) \<and>
                 serve (a, b, c) (zip (key # q) ((1, 1, 0) # plan))"
        using key True by simp
      then show ?thesis by blast
    next
      case False
      with key Cons.prems(1) have a: "a > 2" and "sellTickets_loop (a - 3) b q"
        by (simp_all split: if_splits)
      from Cons.IH [OF this(2) q, of "c + 1"] obtain plan where
        "length plan = length q" "serve (a - 3, b, c + 1) (zip q plan)" by blast
      then have "length ((3, 0, 0) # plan) = length (key # q) \<and>
                 serve (a, b, c) (zip (key # q) ((3, 0, 0) # plan))"
        using key a by simp
      then show ?thesis by blast
    qed
  qed
qed

lemma greedy_complete:
  "serve (a, b, c) (zip q plan) \<Longrightarrow> length plan = length q \<Longrightarrow> set q \<subseteq> {25, 50, 100} \<Longrightarrow>
     a \<le> a' \<Longrightarrow> a + 2 * b \<le> a' + 2 * b' \<Longrightarrow> sellTickets_loop a' b' q"
proof (induction q arbitrary: a b c a' b' plan)
  case Nil
  then show ?case by simp
next
  case (Cons key q)
  from Cons.prems(2) obtain h plan' where plan: "plan = h # plan'" and len: "length plan' = length q"
    by (cases plan) auto
  obtain i j k where h: "h = (i, j, k)" by (cases h)
  from Cons.prems(3) have q: "set q \<subseteq> {25, 50, 100}" and kk: "key = 25 \<or> key = 50 \<or> key = 100"
    by auto
  from Cons.prems(1) have pay: "int (25 * i + 50 * j + 100 * k) = key - 25"
    and g: "case give (i, j, k) (collect key (a, b, c)) of
              None \<Rightarrow> False | Some t' \<Rightarrow> serve t' (zip q plan')"
    by (simp_all add: plan h)
  from kk show ?case
  proof (elim disjE)
    assume key: "key = 25"
    with pay have z: "i = 0" "j = 0" "k = 0" by auto
    from g have "serve (a + 1, b, c) (zip q plan')" by (simp add: key z)
    from Cons.IH [OF this len q, of "a' + 1" b'] Cons.prems(4,5)
    show ?thesis by (simp add: key)
  next
    assume key: "key = 50"
    with pay have "25 * i + 50 * j + 100 * k = 25" by auto
    from change25 [OF this] have z: "i = 1" "j = 0" "k = 0" by simp_all
    from g have a: "a \<ge> 1" and r: "serve (a - 1, b + 1, c) (zip q plan')"
      by (simp_all add: key z split: if_splits)
    with Cons.prems(4) have a': "a' > 0" by simp
    have "sellTickets_loop (a' - 1) (b' + 1) q"
      by (rule Cons.IH [OF r len q]) (use a Cons.prems(4,5) in auto)
    with a' show ?thesis by (simp add: key)
  next
    assume key: "key = 100"
    with pay have "25 * i + 50 * j + 100 * k = 75" by auto
    then have z: "k = 0 \<and> (i = 3 \<and> j = 0 \<or> i = 1 \<and> j = 1)" by (rule change75)
    then have k0: "k = 0" by simp
    from g have le: "i \<le> a" "j \<le> b" and r: "serve (a - i, b - j, c + 1) (zip q plan')"
      by (simp_all add: key k0 split: if_splits)
    from z le have a1: "a \<ge> 1" by auto
    with Cons.prems(4) have a'1: "a' \<ge> 1" by simp
    from z le have tot: "a + 2 * b \<ge> 3" by auto
    show ?thesis
    proof (cases "b' > 0 \<and> a' > 0")
      case True
      have "sellTickets_loop (a' - 1) (b' - 1) q"
        by (rule Cons.IH [OF r len q]) (use z le True Cons.prems(4,5) in auto)
      with True show ?thesis by (simp add: key)
    next
      case False
      with a'1 have b'0: "b' = 0" by simp
      with tot Cons.prems(5) have a'3: "a' > 2" by simp
      have "sellTickets_loop (a' - 3) b' q"
        by (rule Cons.IH [OF r len q]) (use z le b'0 Cons.prems(4,5) in auto)
      with False a'3 show ?thesis by (simp add: key)
    qed
  qed
qed

text \<open>
  C10. On a queue of 25, 50 and 100 bills, \<open>sellTickets\<close> answers true exactly when some
  plan gives every customer the right change from the bills collected so far: the
  greedy choice for a 100 bill never loses a queue that can be served.
\<close>

theorem sellTickets_sound_complete:
  assumes "set queue \<subseteq> {25, 50, 100}"
  shows "sellTickets queue \<longleftrightarrow>
           (\<exists>plan. length plan = length queue \<and> serve (0, 0, 0) (zip queue plan))"
proof
  assume "sellTickets queue"
  then show "\<exists>plan. length plan = length queue \<and> serve (0, 0, 0) (zip queue plan)"
    using assms unfolding sellTickets_def by (rule greedy_sound)
next
  assume "\<exists>plan. length plan = length queue \<and> serve (0, 0, 0) (zip queue plan)"
  then obtain plan where "length plan = length queue" "serve (0, 0, 0) (zip queue plan)"
    by blast
  from greedy_complete [OF this(2,1) assms, of 0 0] show "sellTickets queue"
    by (simp add: sellTickets_def)
qed

theorem sellTickets_sound_complete_witness:
  "set [25, 25, 50, 100] \<subseteq> {25, 50, 100 :: int}
   \<and> sellTickets [25, 25, 50, 100]
   \<and> (\<exists>plan. length plan = length [25, 25, 50, 100 :: int] \<and>
         serve (0, 0, 0) (zip [25, 25, 50, 100] plan))
   \<and> set [25, 100] \<subseteq> {25, 50, 100 :: int}
   \<and> \<not> sellTickets [25, 100]
   \<and> \<not> (\<exists>plan. length plan = length [25, 100 :: int] \<and>
         serve (0, 0, 0) (zip [25, 100] plan))"
proof -
  have a: "set [25, 25, 50, 100] \<subseteq> {25, 50, 100 :: int}" by simp
  have b: "set [25, 100] \<subseteq> {25, 50, 100 :: int}" by simp
  have c: "sellTickets [25, 25, 50, 100]" by (simp add: sellTickets_def)
  have d: "\<not> sellTickets [25, 100]" by (simp add: sellTickets_def)
  from a b c d sellTickets_sound_complete [OF a] sellTickets_sound_complete [OF b]
  show ?thesis by blast
qed

end
